theory Spec2Isabelle
  imports Complex_Main "HOL-Library.Multiset"
begin

section \<open>Livetime and POT accounting (src/pot/livetime.py)\<close>

text \<open>
  The module has two functions. \<open>query_pot_interval\<close> asks the beam database
  for the samples of one device in a time window and returns how many there
  are and their sum. \<open>get_livetime_interval\<close> intersects a query window with a
  list of DAQ intervals, sums the lengths of the intersections, and queries the
  database once per intersecting interval and once for the whole window.

  Modelling decisions, each forced by the source:
  \<^item> A \<open>datetime\<close> is an instant with microsecond resolution; it is modelled
    as the integer number of microseconds since the Unix epoch. Comparison,
    \<open>max\<close>, \<open>min\<close> and subtraction of aware datetimes act on that instant.
    A \<open>timedelta\<close> is an integer number of microseconds.
  \<^item> Python floats are modelled as real numbers: \<open>total_seconds()\<close> is the
    exact quotient by \<open>10^6\<close>, \<open>np.sum\<close> is the exact sum. Rounding, NaN and
    infinities are outside the model. Python's float division raises
    \<open>ZeroDivisionError\<close> on a zero divisor; that is a branch of the model.
  \<^item> The \<open>raise RuntimeError\<close> of line 43, the \<open>ValueError\<close> that
    \<open>np.array(..., dtype=float)\<close> raises on a field that is not a number, and
    the \<open>ZeroDivisionError\<close> of line 109 are values of type \<open>error\<close>.
  \<^item> The HTTP service is a parameter: a function from the requests served so
    far and the requested URL to a response. Every call of \<open>requests.get\<close>
    appends its URL to a log that is threaded through the functions, so the
    number and order of requests is observable.
  \<^item> The conversion of a text field to a float is numpy's; it is a parameter
    \<open>float_of\<close> that returns \<open>None\<close> where numpy raises.
  \<^item> \<open>collected_pot\<close> starts as the integer \<open>0\<close> (line 88) and becomes a
    float with the first addition; both are the real number \<open>0\<close> here.
  \<^item> Failures of the transport itself (\<open>requests.get\<close> raising) and
    comparisons between naive and aware datetimes are not modelled.
\<close>

subsection \<open>Data\<close>

type_synonym datetime = int
type_synonym timedelta = int

datatype error = RuntimeError int | ValueError | ZeroDivisionError

record response =
  status_code :: int
  text_of :: string

type_synonym request_log = "string list"
type_synonym service = "request_log \<Rightarrow> string \<Rightarrow> response"

text \<open>The six values returned by \<open>get_livetime_interval\<close> (line 111), in order.\<close>

record report =
  livetime :: real
  livetime_fraction :: real
  delivered_spills :: int
  collected_spills :: int
  delivered_pot :: real
  collected_pot :: real

subsection \<open>Python primitives used by the module\<close>

text \<open>\<open>timedelta.total_seconds()\<close>.\<close>

definition total_seconds :: "timedelta \<Rightarrow> real" where
  "total_seconds d = real_of_int d / 1000000"

text \<open>
  \<open>int(t.timestamp())\<close>: seconds since the epoch, truncated towards zero
  (the float that \<open>timestamp()\<close> returns is taken as exact).
\<close>

definition int_timestamp :: "datetime \<Rightarrow> int" where
  "int_timestamp t = (if 0 \<le> t then t div 1000000 else - ((- t) div 1000000))"

text \<open>\<open>str\<close> of an integer, as an f-string interpolates it.\<close>

definition digit_char :: "nat \<Rightarrow> char" where
  "digit_char d = ''0123456789'' ! d"

fun str_nat :: "nat \<Rightarrow> string" where
  "str_nat n = (if n < 10 then [digit_char n] else str_nat (n div 10) @ [digit_char (n mod 10)])"

declare str_nat.simps [simp del]

definition str_int :: "int \<Rightarrow> string" where
  "str_int i = (if i < 0 then CHR ''-'' # str_nat (nat (- i)) else str_nat (nat i))"

text \<open>
  \<open>s.split(c)\<close> for a separator of one character: the pieces between the
  occurrences of \<open>c\<close>, one more than there are occurrences.
\<close>

fun split_on :: "char \<Rightarrow> string \<Rightarrow> string list" where
  "split_on c [] = [[]]"
| "split_on c (x # xs) =
     (if x = c then [] # split_on c xs
      else (let r = split_on c xs in (x # hd r) # tl r))"

subsection \<open>query_pot_interval (lines 10-46)\<close>

definition base :: string where
  "base = ''https://dbdata1vm.fnal.gov:9443/ifbeam/data''"

definition device_name :: string where
  "device_name = ''E:TOR875''"

definition query_url :: "datetime \<Rightarrow> datetime \<Rightarrow> string" where
  "query_url s0 s1 =
     base @ ''/data?v='' @ device_name @ ''&e=e,1d&t0='' @ str_int (int_timestamp s0)
       @ ''&t1='' @ str_int (int_timestamp s1) @ ''&f=csv''"

text \<open>
  Line 45: the lines of the body after the first, the empty ones dropped, and
  of each the text after its last comma.
\<close>

definition data_fields :: "string \<Rightarrow> string list" where
  "data_fields body =
     map (\<lambda>line. last (split_on CHR '','' line))
       (filter (\<lambda>line. line \<noteq> []) (drop 1 (split_on (CHR 0x0A) body)))"

text \<open>\<open>np.array(fields, dtype=float)\<close>: all fields converted, or \<open>ValueError\<close>.\<close>

fun float_array :: "(string \<Rightarrow> real option) \<Rightarrow> string list \<Rightarrow> real list option" where
  "float_array float_of [] = Some []"
| "float_array float_of (f # fs) =
     (case float_of f of
        None \<Rightarrow> None
      | Some v \<Rightarrow> (case float_array float_of fs of None \<Rightarrow> None | Some vs \<Rightarrow> Some (v # vs)))"

definition query_pot_interval ::
  "(string \<Rightarrow> real option) \<Rightarrow> service \<Rightarrow> request_log \<Rightarrow> datetime \<Rightarrow> datetime
     \<Rightarrow> request_log \<times> (error + int \<times> real)" where
  "query_pot_interval float_of srv reqs t0 t1 =
     (let s0 = t0;
          s1 = t1;
          url = query_url s0 s1;
          response = srv reqs url;
          reqs' = reqs @ [url]
      in if status_code response \<noteq> 200
         then (reqs', Inl (RuntimeError (status_code response)))
         else (case float_array float_of (data_fields (text_of response)) of
                 None \<Rightarrow> (reqs', Inl ValueError)
               | Some data \<Rightarrow> (reqs', Inr (int (length data), sum_list data))))"

subsection \<open>get_livetime_interval (lines 48-111)\<close>

text \<open>
  The state of the loop of lines 92-100: \<open>overlap\<close>, \<open>collected_spills\<close>,
  \<open>collected_pot\<close>.
\<close>

type_synonym accum = "timedelta \<times> int \<times> real"

text \<open>Lines 95-96: the DAQ interval clipped to the query window.\<close>

definition clipped :: "datetime \<Rightarrow> datetime \<Rightarrow> datetime \<Rightarrow> datetime \<Rightarrow> datetime \<times> datetime" where
  "clipped t0 t1 start end = (max t0 start, min t1 end)"

text \<open>One iteration of the loop (lines 93-100).\<close>

fun loop_body ::
  "(string \<Rightarrow> real option) \<Rightarrow> service \<Rightarrow> datetime \<Rightarrow> datetime \<Rightarrow> datetime \<times> datetime
     \<Rightarrow> request_log \<times> accum \<Rightarrow> request_log \<times> (error + accum)" where
  "loop_body float_of srv t0 t1 (start, end) (reqs, overlap, c_spills, c_pot) =
     (if start > t1 \<or> end < t0 then (reqs, Inr (overlap, c_spills, c_pot))
      else (let (s0, s1) = clipped t0 t1 start end
            in (case query_pot_interval float_of srv reqs s0 s1 of
                  (reqs', Inl e) \<Rightarrow> (reqs', Inl e)
                | (reqs', Inr query) \<Rightarrow>
                    (reqs', Inr (overlap + (s1 - s0), c_spills + fst query, c_pot + snd query)))))"

declare loop_body.simps [simp del]

text \<open>The loop over \<open>zip(starts, ends)\<close>; an exception ends it.\<close>

fun loop ::
  "(string \<Rightarrow> real option) \<Rightarrow> service \<Rightarrow> datetime \<Rightarrow> datetime \<Rightarrow> (datetime \<times> datetime) list
     \<Rightarrow> request_log \<times> accum \<Rightarrow> request_log \<times> (error + accum)" where
  "loop float_of srv t0 t1 [] st = (fst st, Inr (snd st))"
| "loop float_of srv t0 t1 (se # rest) st =
     (case loop_body float_of srv t0 t1 se st of
        (reqs', Inl e) \<Rightarrow> (reqs', Inl e)
      | (reqs', Inr acc) \<Rightarrow> loop float_of srv t0 t1 rest (reqs', acc))"

definition get_livetime_interval ::
  "(string \<Rightarrow> real option) \<Rightarrow> service \<Rightarrow> request_log \<Rightarrow> datetime \<Rightarrow> datetime
     \<Rightarrow> datetime list \<Rightarrow> datetime list \<Rightarrow> request_log \<times> (error + report)" where
  "get_livetime_interval float_of srv reqs t0 t1 starts ends =
     (case loop float_of srv t0 t1 (zip starts ends) (reqs, 0, 0, 0) of
        (reqs1, Inl e) \<Rightarrow> (reqs1, Inl e)
      | (reqs1, Inr (overlap, c_spills, c_pot)) \<Rightarrow>
          (case query_pot_interval float_of srv reqs1 t0 t1 of
             (reqs2, Inl e) \<Rightarrow> (reqs2, Inl e)
           | (reqs2, Inr query) \<Rightarrow>
               (let lt = total_seconds overlap
                in if total_seconds (t1 - t0) = 0 then (reqs2, Inl ZeroDivisionError)
                   else (reqs2, Inr \<lparr> livetime = lt,
                                     livetime_fraction = lt / total_seconds (t1 - t0),
                                     delivered_spills = fst query,
                                     collected_spills = c_spills,
                                     delivered_pot = snd query,
                                     collected_pot = c_pot \<rparr>))))"

subsection \<open>Auxiliary notions\<close>

text \<open>
  What the loop body does to the accumulators for one DAQ interval, as seen
  from an empty log and zero accumulators.
\<close>

definition contribution ::
  "(string \<Rightarrow> real option) \<Rightarrow> service \<Rightarrow> datetime \<Rightarrow> datetime \<Rightarrow> datetime \<times> datetime
     \<Rightarrow> error + accum" where
  "contribution float_of srv t0 t1 se = snd (loop_body float_of srv t0 t1 se ([], 0, 0, 0))"

text \<open>
  The requests issued between the logs \<open>reqs\<close> and \<open>reqs'\<close>: if the one at
  position \<open>k\<close> was answered with a status other than 200, the outcome is the
  \<open>RuntimeError\<close> with that status and the request is the last one issued.
\<close>

definition aborts_at_failure :: "service \<Rightarrow> request_log \<Rightarrow> request_log \<Rightarrow> (error + 'a) \<Rightarrow> bool" where
  "aborts_at_failure srv reqs reqs' res \<longleftrightarrow>
     (\<exists>ext. reqs' = reqs @ ext) \<and>
     (\<forall>k. length reqs \<le> k \<and> k < length reqs' \<and>
          status_code (srv (take k reqs') (reqs' ! k)) \<noteq> 200 \<longrightarrow>
          res = Inl (RuntimeError (status_code (srv (take k reqs') (reqs' ! k)))) \<and>
          Suc k = length reqs')"

subsection \<open>Concrete services and a concrete conversion, for evaluation\<close>

definition sample_float_of :: "string \<Rightarrow> real option" where
  "sample_float_of s =
     (if s = ''2.5'' then Some (5 / 2) else if s = ''4'' then Some 4 else None)"

text \<open>
  A service that always answers 200 with a header line, a data line of three
  fields, an empty line and a data line of one field.
\<close>

definition sample_service :: service where
  "sample_service reqs url =
     \<lparr> status_code = 200,
       text_of = ''t,v'' @ [CHR 0x0A] @ ''1,a,2.5'' @ [CHR 0x0A, CHR 0x0A] @ ''4'' @ [CHR 0x0A] \<rparr>"

text \<open>A service that answers its second request with status 500.\<close>

definition flaky_service :: service where
  "flaky_service reqs url =
     \<lparr> status_code = (if length reqs = 1 then 500 else 200), text_of = [] \<rparr>"

section \<open>Properties\<close>

subsection \<open>Splitting and converting the response body\<close>

lemma split_on_not_Nil: "split_on c s \<noteq> []"
  by (induction s) (auto simp add: Let_def)

lemma length_split_on: "length (split_on c s) = Suc (count_list s c)"
  using split_on_not_Nil [of c]
  by (induction s) (auto simp add: Let_def)

lemma split_on_absent: "c \<notin> set s \<Longrightarrow> split_on c s = [s]"
  by (induction s) (auto simp add: Let_def)

lemma split_on_no_separator: "p \<in> set (split_on c s) \<Longrightarrow> c \<notin> set p"
proof (induction s arbitrary: p)
  case Nil
  then show ?case by simp
next
  case (Cons x xs)
  show ?case
  proof (cases "x = c")
    case True
    with Cons show ?thesis by auto
  next
    case False
    from split_on_not_Nil [of c xs] obtain w ws where r: "split_on c xs = w # ws"
      by (cases "split_on c xs") auto
    with Cons False show ?thesis
      by (auto simp add: Let_def)
  qed
qed

text \<open>The last piece is the text after the last separator.\<close>

lemma last_split_on: "last (split_on c s) = rev (takeWhile (\<lambda>x. x \<noteq> c) (rev s))"
proof (induction s)
  case Nil
  show ?case by simp
next
  case (Cons x xs)
  show ?case
  proof (cases "c \<in> set xs")
    case True
    then have "count_list xs c \<noteq> 0"
      by (simp add: count_list_0_iff)
    then have "1 < length (split_on c xs)"
      by (simp add: length_split_on)
    then obtain w v ws where r: "split_on c xs = w # v # ws"
      by (cases "split_on c xs" rule: list.exhaust; cases "tl (split_on c xs)") auto
    with Cons True show ?thesis
      by (auto simp add: Let_def takeWhile_append1)
  next
    case False
    then have t: "takeWhile (\<lambda>x. x \<noteq> c) (rev xs @ [x]) =
        rev xs @ takeWhile (\<lambda>x. x \<noteq> c) [x]"
      by (intro takeWhile_append2) auto
    from False show ?thesis
      by (auto simp add: split_on_absent t)
  qed
qed

lemma float_array_all:
  "\<forall>f \<in> set fs. float_of f \<noteq> None \<Longrightarrow>
   float_array float_of fs = Some (map (\<lambda>f. the (float_of f)) fs)"
  by (induction fs) auto

lemma float_array_bad:
  "f \<in> set fs \<Longrightarrow> float_of f = None \<Longrightarrow> float_array float_of fs = None"
  by (induction fs) (auto split: option.split)

lemma query_url_example:
  "query_url 1700000000000000 1700000060500000 =
   ''https://dbdata1vm.fnal.gov:9443/ifbeam/data/data?v=E:TOR875&e=e,1d&t0=1700000000&t1=1700000060&f=csv''"
  by (simp add: query_url_def base_def device_name_def str_int_def int_timestamp_def
      str_nat.simps digit_char_def)

subsection \<open>The requests of one query and of one iteration\<close>

lemma query_pot_interval_fst:
  "fst (query_pot_interval float_of srv reqs t0 t1) = reqs @ [query_url t0 t1]"
  by (simp add: query_pot_interval_def Let_def split: option.split)

lemma loop_body_skip:
  "s > t1 \<or> e < t0 \<Longrightarrow>
   loop_body float_of srv t0 t1 (s, e) (reqs, overlap, c_spills, c_pot) =
     (reqs, Inr (overlap, c_spills, c_pot))"
  by (simp add: loop_body.simps)

lemma loop_body_query_fst:
  "\<not> (s > t1 \<or> e < t0) \<Longrightarrow>
   fst (loop_body float_of srv t0 t1 (s, e) (reqs, overlap, c_spills, c_pot)) =
     reqs @ [query_url (max t0 s) (min t1 e)]"
  using query_pot_interval_fst [of float_of srv reqs "max t0 s" "min t1 e"]
  by (auto simp add: loop_body.simps clipped_def split: prod.split sum.split)

lemma loop_body_query_snd:
  "\<not> (s > t1 \<or> e < t0) \<Longrightarrow>
   snd (loop_body float_of srv t0 t1 (s, e) (reqs, overlap, c_spills, c_pot)) =
     (case snd (query_pot_interval float_of srv reqs (max t0 s) (min t1 e)) of
        Inl err \<Rightarrow> Inl err
      | Inr query \<Rightarrow>
          Inr (overlap + (min t1 e - max t0 s), c_spills + fst query, c_pot + snd query))"
  by (auto simp add: loop_body.simps clipped_def split: prod.split sum.split)

text \<open>
  C1. One iteration for the DAQ interval \<open>(s, e)\<close>. If \<open>s > t1\<close> or \<open>e < t0\<close>
  the iteration leaves the log and the three accumulators as they are: no
  overlap is added and no query is issued. Otherwise it issues exactly one
  query, for the clipped window. Hence no query is issued exactly when
  \<open>s > t1\<close> or \<open>e < t0\<close>; an interval that starts at \<open>t1\<close>, or ends at \<open>t0\<close>,
  is not skipped.
\<close>

theorem skipped_iff_disjoint:
  "(s > t1 \<or> e < t0 \<longrightarrow>
      loop_body float_of srv t0 t1 (s, e) (reqs, overlap, c_spills, c_pot) =
        (reqs, Inr (overlap, c_spills, c_pot)))
   \<and> (\<not> (s > t1 \<or> e < t0) \<longrightarrow>
      fst (loop_body float_of srv t0 t1 (s, e) (reqs, overlap, c_spills, c_pot)) =
        reqs @ [query_url (max t0 s) (min t1 e)])
   \<and> ((fst (loop_body float_of srv t0 t1 (s, e) (reqs, overlap, c_spills, c_pot)) = reqs)
        = (s > t1 \<or> e < t0))
   \<and> (s = t1 \<and> t0 \<le> e \<longrightarrow>
        fst (loop_body float_of srv t0 t1 (s, e) (reqs, overlap, c_spills, c_pot)) \<noteq> reqs)
   \<and> (e = t0 \<and> s \<le> t1 \<longrightarrow>
        fst (loop_body float_of srv t0 t1 (s, e) (reqs, overlap, c_spills, c_pot)) \<noteq> reqs)"
proof -
  have skip: "s > t1 \<or> e < t0 \<Longrightarrow>
      loop_body float_of srv t0 t1 (s, e) (reqs, overlap, c_spills, c_pot) =
        (reqs, Inr (overlap, c_spills, c_pot))"
    by (rule loop_body_skip)
  have keep: "\<not> (s > t1 \<or> e < t0) \<Longrightarrow>
      fst (loop_body float_of srv t0 t1 (s, e) (reqs, overlap, c_spills, c_pot)) =
        reqs @ [query_url (max t0 s) (min t1 e)]"
    by (rule loop_body_query_fst)
  show ?thesis
    using skip keep by (cases "s > t1 \<or> e < t0") auto
qed

theorem skipped_iff_disjoint_witness:
  "loop_body sample_float_of sample_service 10 20 (21, 30) ([], 7, 1, 2) = ([], Inr (7, 1, 2))
   \<and> loop_body sample_float_of sample_service 10 20 (0, 9) ([], 7, 1, 2) = ([], Inr (7, 1, 2))
   \<and> fst (loop_body sample_float_of sample_service 10 20 (20, 30) ([], 7, 1, 2)) = [query_url 20 20]
   \<and> fst (loop_body sample_float_of sample_service 10 20 (0, 10) ([], 7, 1, 2)) = [query_url 10 10]"
  using skipped_iff_disjoint [where s = 21 and e = 30 and ?t0.0 = 10 and ?t1.0 = 20
      and float_of = sample_float_of and srv = sample_service and reqs = "[]"
      and overlap = 7 and c_spills = 1 and c_pot = 2]
    skipped_iff_disjoint [where s = 0 and e = 9 and ?t0.0 = 10 and ?t1.0 = 20
      and float_of = sample_float_of and srv = sample_service and reqs = "[]"
      and overlap = 7 and c_spills = 1 and c_pot = 2]
    skipped_iff_disjoint [where s = 20 and e = 30 and ?t0.0 = 10 and ?t1.0 = 20
      and float_of = sample_float_of and srv = sample_service and reqs = "[]"
      and overlap = 7 and c_spills = 1 and c_pot = 2]
    skipped_iff_disjoint [where s = 0 and e = 10 and ?t0.0 = 10 and ?t1.0 = 20
      and float_of = sample_float_of and srv = sample_service and reqs = "[]"
      and overlap = 7 and c_spills = 1 and c_pot = 2]
  by simp

text \<open>
  C2. For a query window with \<open>t0 \<le> t1\<close> and a DAQ interval with \<open>s \<le> e\<close>
  that passes the intersection test (\<open>s \<le> t1\<close> and \<open>t0 \<le> e\<close>), the clipped
  window \<open>(s0, s1)\<close> of lines 95-96 is \<open>(max t0 s, min t1 e)\<close> and satisfies
  \<open>t0 \<le> s0 \<le> s1 \<le> t1\<close>, \<open>s \<le> s0\<close> and \<open>s1 \<le> e\<close>.
\<close>

theorem clipped_window_bounds:
  "t0 \<le> t1 \<Longrightarrow> s \<le> e \<Longrightarrow> s \<le> t1 \<Longrightarrow> t0 \<le> e \<Longrightarrow>
   clipped t0 t1 s e = (s0, s1) \<Longrightarrow>
   s0 = max t0 s \<and> s1 = min t1 e \<and>
   t0 \<le> s0 \<and> s0 \<le> s1 \<and> s1 \<le> t1 \<and> s \<le> s0 \<and> s1 \<le> e"
  by (auto simp add: clipped_def)

theorem clipped_window_bounds_witness:
  "clipped 10 20 5 15 = (10, 15) \<and> (10 :: int) \<le> 10 \<and> (10 :: int) \<le> 15 \<and> (15 :: int) \<le> 20
   \<and> (5 :: int) \<le> 10 \<and> (15 :: int) \<le> 15"
proof -
  have c: "clipped 10 20 5 15 = (10, 15)"
    by (simp add: clipped_def)
  from clipped_window_bounds [of 10 20 5 15 10 15, OF _ _ _ _ c] c show ?thesis
    by simp
qed

subsection \<open>The value of one query\<close>

text \<open>
  C5. When the service answers 200, the result of \<open>query_pot_interval\<close> is
  determined by the non-empty lines of the body after the header line: if the
  last comma-separated field of each converts to a float, the call returns the
  number of these lines and the sum of the converted fields; otherwise the
  conversion raises. A body without such lines yields \<open>(0, 0)\<close>.
\<close>

theorem query_counts_and_sums:
  assumes "status_code (srv reqs (query_url t0 t1)) = 200"
    and "lines = filter (\<lambda>line. line \<noteq> [])
                   (drop 1 (split_on (CHR 0x0A) (text_of (srv reqs (query_url t0 t1)))))"
  shows "snd (query_pot_interval float_of srv reqs t0 t1) =
           (if \<forall>line \<in> set lines. float_of (last (split_on CHR '','' line)) \<noteq> None
            then Inr (int (length lines),
                      (\<Sum>line\<leftarrow>lines. the (float_of (last (split_on CHR '','' line)))))
            else Inl ValueError)
         \<and> (lines = [] \<longrightarrow> snd (query_pot_interval float_of srv reqs t0 t1) = Inr (0, 0))"
proof -
  let ?body = "text_of (srv reqs (query_url t0 t1))"
  let ?field = "\<lambda>line. last (split_on CHR '','' line)"
  have f: "data_fields ?body = map ?field lines"
    by (simp add: data_fields_def assms(2))
  have main: "snd (query_pot_interval float_of srv reqs t0 t1) =
           (if \<forall>line \<in> set lines. float_of (?field line) \<noteq> None
            then Inr (int (length lines), (\<Sum>line\<leftarrow>lines. the (float_of (?field line))))
            else Inl ValueError)"
  proof (cases "\<forall>line \<in> set lines. float_of (?field line) \<noteq> None")
    case True
    with f have "\<forall>f \<in> set (data_fields ?body). float_of f \<noteq> None"
      by auto
    from float_array_all [OF this] f
    have "float_array float_of (data_fields ?body) =
        Some (map (\<lambda>line. the (float_of (?field line))) lines)"
      by (simp add: comp_def)
    with assms(1) True show ?thesis
      by (simp add: query_pot_interval_def Let_def)
  next
    case False
    then obtain line where "line \<in> set lines" "float_of (?field line) = None"
      by auto
    with f have "?field line \<in> set (data_fields ?body)"
      by auto
    with \<open>float_of (?field line) = None\<close>
    have "float_array float_of (data_fields ?body) = None"
      using float_array_bad [where float_of = float_of and f = "?field line"
          and fs = "data_fields ?body"]
      by simp
    with assms(1) False show ?thesis
      by (simp add: query_pot_interval_def Let_def)
  qed
  then show ?thesis by auto
qed

lemma sample_float_of_values:
  "sample_float_of ''2.5'' = Some (5 / 2)" "sample_float_of ''4'' = Some 4"
  by (simp_all add: sample_float_of_def)

theorem query_counts_and_sums_witness:
  "snd (query_pot_interval sample_float_of sample_service [] 1000000 25000000) = Inr (2, 13 / 2)"
proof -
  have st: "status_code (sample_service [] (query_url 1000000 25000000)) = 200"
    by (simp add: sample_service_def)
  have ls: "[''1,a,2.5'', ''4''] = filter (\<lambda>line. line \<noteq> [])
      (drop 1 (split_on (CHR 0x0A) (text_of (sample_service [] (query_url 1000000 25000000)))))"
    by (simp add: sample_service_def)
  from query_counts_and_sums [where srv = sample_service and reqs = "[]"
      and ?t0.0 = 1000000 and ?t1.0 = 25000000 and lines = "[''1,a,2.5'', ''4'']"
      and float_of = sample_float_of, OF st ls]
  show ?thesis
    by (simp add: sample_float_of_values del: not_None_eq)
qed

subsection \<open>The accumulated overlap\<close>

lemma loop_overlap:
  "loop float_of srv t0 t1 xs (reqs, ov, sp, pot) = (reqs', Inr (ov', sp', pot')) \<Longrightarrow>
   ov' = ov + (\<Sum>(s, e)\<leftarrow>xs. if s > t1 \<or> e < t0 then 0 else min t1 e - max t0 s)"
proof (induction xs arbitrary: reqs ov sp pot)
  case Nil
  then show ?case by simp
next
  case (Cons x xs)
  obtain s e where x: "x = (s, e)" by (cases x)
  obtain rb resb where b: "loop_body float_of srv t0 t1 (s, e) (reqs, ov, sp, pot) = (rb, resb)"
    by (cases "loop_body float_of srv t0 t1 (s, e) (reqs, ov, sp, pot)")
  show ?case
  proof (cases resb)
    case (Inl err)
    with Cons.prems b x show ?thesis by simp
  next
    case (Inr acc)
    obtain ov1 sp1 pot1 where acc: "acc = (ov1, sp1, pot1)" by (cases acc)
    from Cons.prems b x Inr acc
    have "loop float_of srv t0 t1 xs (rb, ov1, sp1, pot1) = (reqs', Inr (ov', sp', pot'))"
      by simp
    from Cons.IH [OF this]
    have ih: "ov' = ov1 + (\<Sum>(s, e)\<leftarrow>xs. if s > t1 \<or> e < t0 then 0 else min t1 e - max t0 s)" .
    from b Inr acc have "ov1 = ov + (if s > t1 \<or> e < t0 then 0 else min t1 e - max t0 s)"
      by (auto simp add: loop_body.simps clipped_def split: if_splits prod.splits sum.splits)
    with ih x show ?thesis by simp
  qed
qed

text \<open>
  Intervals of integers that are pairwise apart: the sum of their lengths is
  the number of instants they cover.
\<close>

lemma disjoint_lengths_card:
  assumes "\<forall>(s, e) \<in> set xs. s \<le> e"
    and "\<forall>i < length xs. \<forall>j < length xs. i \<noteq> j \<longrightarrow>
           snd (xs ! i) \<le> fst (xs ! j) \<or> snd (xs ! j) \<le> fst (xs ! i)"
  shows "(\<Sum>(s :: int, e)\<leftarrow>xs. e - s) = int (card (\<Union>(s, e) \<in> set xs. {s..<e}))"
  using assms
proof (induction xs)
  case Nil
  show ?case by simp
next
  case (Cons x xs)
  obtain s e where x: "x = (s, e)" by (cases x)
  have tail: "\<forall>i < length xs. \<forall>j < length xs. i \<noteq> j \<longrightarrow>
           snd (xs ! i) \<le> fst (xs ! j) \<or> snd (xs ! j) \<le> fst (xs ! i)"
  proof (intro allI impI)
    fix i j assume "i < length xs" "j < length xs" "i \<noteq> j"
    with Cons.prems(2) [rule_format, of "Suc i" "Suc j"]
    show "snd (xs ! i) \<le> fst (xs ! j) \<or> snd (xs ! j) \<le> fst (xs ! i)"
      by simp
  qed
  from Cons.prems(1) have "\<forall>(s, e) \<in> set xs. s \<le> e" by simp
  from Cons.IH [OF this tail]
  have ih: "(\<Sum>(s, e)\<leftarrow>xs. e - s) = int (card (\<Union>(s, e) \<in> set xs. {s..<e}))" .
  have disj: "{s..<e} \<inter> (\<Union>(s, e) \<in> set xs. {s..<e}) = {}"
  proof -
    have sep: "e \<le> s' \<or> e' \<le> s" if m: "(s', e') \<in> set xs" for s' e'
    proof -
      from m obtain j where j: "j < length xs" "xs ! j = (s', e')"
        by (auto simp add: in_set_conv_nth)
      with Cons.prems(2) [rule_format, of 0 "Suc j"] x
      show ?thesis by simp
    qed
    show ?thesis
    proof (rule ccontr)
      assume "{s..<e} \<inter> (\<Union>(s, e) \<in> set xs. {s..<e}) \<noteq> {}"
      then obtain y s' e' where "s \<le> y" "y < e" "(s', e') \<in> set xs" "s' \<le> y" "y < e'"
        by auto
      with sep [of s' e'] show False by simp
    qed
  qed
  have fin: "finite (\<Union>(s, e) \<in> set xs. {s..<e})"
    by auto
  from Cons.prems(1) x have "s \<le> e" by simp
  then have c: "int (card {s..<e}) = e - s" by simp
  have "(\<Union>(s, e) \<in> set (x # xs). {s..<e}) = {s..<e} \<union> (\<Union>(s, e) \<in> set xs. {s..<e})"
    by (simp add: x)
  then have "int (card (\<Union>(s, e) \<in> set (x # xs). {s..<e})) =
      int (card {s..<e}) + int (card (\<Union>(s, e) \<in> set xs. {s..<e}))"
    using card_Un_disjoint [OF _ fin disj] by simp
  with ih c x show ?case by simp
qed

lemma disjoint_lengths_bounded:
  assumes "\<forall>(s, e) \<in> set xs. t0 \<le> s \<and> s \<le> e \<and> e \<le> t1"
    and "\<forall>i < length xs. \<forall>j < length xs. i \<noteq> j \<longrightarrow>
           snd (xs ! i) \<le> fst (xs ! j) \<or> snd (xs ! j) \<le> fst (xs ! i)"
    and "t0 \<le> t1"
  shows "0 \<le> (\<Sum>(s :: int, e)\<leftarrow>xs. e - s) \<and> (\<Sum>(s, e)\<leftarrow>xs. e - s) \<le> t1 - t0"
proof -
  from assms(1) have le: "\<forall>(s, e) \<in> set xs. s \<le> e" by auto
  have eq: "(\<Sum>(s, e)\<leftarrow>xs. e - s) = int (card (\<Union>(s, e) \<in> set xs. {s..<e}))"
    by (rule disjoint_lengths_card [OF le assms(2)])
  have "(\<Union>(s, e) \<in> set xs. {s..<e}) \<subseteq> {t0..<t1}"
    using assms(1) by fastforce
  then have "card (\<Union>(s, e) \<in> set xs. {s..<e}) \<le> card {t0..<t1}"
    by (intro card_mono) auto
  with assms(3) have "int (card (\<Union>(s, e) \<in> set xs. {s..<e})) \<le> t1 - t0"
    by simp
  with eq show ?thesis by simp
qed

lemma inside_no_skip:
  assumes "\<forall>(s, e) \<in> set xs. t0 \<le> s \<and> s \<le> e \<and> e \<le> t1"
  shows "(\<Sum>(s, e)\<leftarrow>xs. if s > t1 \<or> e < t0 then 0 else min t1 e - max t0 s) =
         (\<Sum>(s :: int, e)\<leftarrow>xs. e - s)"
  using assms by (induction xs) auto

text \<open>
  C6. Let \<open>t0 < t1\<close>. If every DAQ interval \<open>(starts[i], ends[i])\<close> is an
  interval (\<open>starts[i] \<le> ends[i]\<close>, as the data model expects of a time
  interval) that lies in \<open>[t0, t1]\<close>, and any two of them are apart (one ends
  no later than the other starts), then a report returned by
  \<open>get_livetime_interval\<close> has its \<open>livetime_fraction\<close> in \<open>[0, 1]\<close>.
\<close>

theorem fraction_in_unit_interval:
  assumes "t0 < t1"
    and "\<forall>i. i < length starts \<and> i < length ends \<longrightarrow>
           t0 \<le> starts ! i \<and> starts ! i \<le> ends ! i \<and> ends ! i \<le> t1"
    and "\<forall>i j. i < length starts \<and> i < length ends \<and> j < length starts \<and> j < length ends \<and>
           i \<noteq> j \<longrightarrow> ends ! i \<le> starts ! j \<or> ends ! j \<le> starts ! i"
    and "snd (get_livetime_interval float_of srv reqs t0 t1 starts ends) = Inr r"
  shows "0 \<le> livetime_fraction r \<and> livetime_fraction r \<le> 1"
proof -
  let ?xs = "zip starts ends"
  have inside: "\<forall>(s, e) \<in> set ?xs. t0 \<le> s \<and> s \<le> e \<and> e \<le> t1"
    using assms(2) by (auto simp add: in_set_conv_nth)
  have apart: "\<forall>i < length ?xs. \<forall>j < length ?xs. i \<noteq> j \<longrightarrow>
           snd (?xs ! i) \<le> fst (?xs ! j) \<or> snd (?xs ! j) \<le> fst (?xs ! i)"
    using assms(3) by simp
  from assms(1) have "t0 \<le> t1" by simp
  from disjoint_lengths_bounded [OF inside apart this] inside_no_skip [OF inside]
  have bound: "0 \<le> (\<Sum>(s, e)\<leftarrow>?xs. if s > t1 \<or> e < t0 then 0 else min t1 e - max t0 s)"
    "(\<Sum>(s, e)\<leftarrow>?xs. if s > t1 \<or> e < t0 then 0 else min t1 e - max t0 s) \<le> t1 - t0"
    by simp_all
  obtain r1 res1 where l: "loop float_of srv t0 t1 ?xs (reqs, 0, 0, 0) = (r1, res1)"
    by (cases "loop float_of srv t0 t1 ?xs (reqs, 0, 0, 0)")
  with assms(4) obtain ov sp pot where res1: "res1 = Inr (ov, sp, pot)"
    by (cases res1) (auto simp add: get_livetime_interval_def)
  from loop_overlap [OF l [unfolded res1]] bound have ov: "0 \<le> ov" "ov \<le> t1 - t0"
    by simp_all
  from assms(4) l res1 have "livetime_fraction r = total_seconds ov / total_seconds (t1 - t0)"
    by (auto simp add: get_livetime_interval_def Let_def split: prod.splits sum.splits if_splits)
  with ov assms(1) show ?thesis
    by (simp add: total_seconds_def)
qed

lemma sample_run:
  "snd (get_livetime_interval sample_float_of sample_service [] 0 10000000
          [0, 5000000] [3000000, 10000000]) =
   Inr \<lparr> livetime = 8, livetime_fraction = 4 / 5, delivered_spills = 2, collected_spills = 4,
         delivered_pot = 13 / 2, collected_pot = 13 \<rparr>"
  by (simp add: get_livetime_interval_def loop_body.simps clipped_def query_pot_interval_def
      Let_def sample_service_def sample_float_of_def data_fields_def total_seconds_def)

theorem fraction_in_unit_interval_witness:
  "(0 :: real) \<le> 4 / 5 \<and> (4 / 5 :: real) \<le> 1"
proof -
  have inside: "\<forall>i. i < length [0, 5000000 :: int] \<and> i < length [3000000, 10000000 :: int] \<longrightarrow>
      0 \<le> [0, 5000000 :: int] ! i \<and> [0, 5000000] ! i \<le> [3000000, 10000000 :: int] ! i \<and>
      [3000000, 10000000 :: int] ! i \<le> 10000000"
    by (simp add: less_Suc_eq nth_Cons')
  have apart: "\<forall>i j. i < length [0, 5000000 :: int] \<and> i < length [3000000, 10000000 :: int] \<and>
      j < length [0, 5000000 :: int] \<and> j < length [3000000, 10000000 :: int] \<and> i \<noteq> j \<longrightarrow>
      [3000000, 10000000 :: int] ! i \<le> [0, 5000000] ! j \<or>
      [3000000, 10000000 :: int] ! j \<le> [0, 5000000] ! i"
    by (auto simp add: less_Suc_eq nth_Cons')
  have window: "(0 :: int) < 10000000"
    by simp
  from fraction_in_unit_interval [OF window inside apart sample_run] show ?thesis
    by simp
qed

subsection \<open>Degenerate inputs\<close>

text \<open>
  C7. With empty \<open>starts\<close> and \<open>ends\<close> and \<open>t0 < t1\<close>, the call issues the one
  query for the whole window \<open>(t0, t1)\<close> and nothing else. If that query fails
  the call fails with its error; otherwise the report has
  \<open>collected_spills = 0\<close>, \<open>collected_pot = 0\<close>, \<open>livetime = 0\<close>,
  \<open>livetime_fraction = 0\<close>, and \<open>delivered_spills\<close>, \<open>delivered_pot\<close> are
  the two values that query returned.
\<close>

theorem empty_daq_lists:
  "t0 < t1 \<Longrightarrow>
   get_livetime_interval float_of srv reqs t0 t1 [] [] =
     (case query_pot_interval float_of srv reqs t0 t1 of
        (reqs', Inl err) \<Rightarrow> (reqs', Inl err)
      | (reqs', Inr query) \<Rightarrow>
          (reqs', Inr \<lparr> livetime = 0, livetime_fraction = 0,
                        delivered_spills = fst query, collected_spills = 0,
                        delivered_pot = snd query, collected_pot = 0 \<rparr>))"
  by (simp add: get_livetime_interval_def total_seconds_def split: prod.split sum.split)

theorem empty_daq_lists_witness:
  "snd (get_livetime_interval sample_float_of sample_service [] 0 10000000 [] []) =
     Inr \<lparr> livetime = 0, livetime_fraction = 0, delivered_spills = 2, collected_spills = 0,
           delivered_pot = 13 / 2, collected_pot = 0 \<rparr>"
proof -
  have w: "(0 :: int) < 10000000"
    by simp
  have q: "snd (query_pot_interval sample_float_of sample_service [] 0 10000000) = Inr (2, 13 / 2)"
    by (simp add: query_pot_interval_def Let_def sample_service_def sample_float_of_def
        data_fields_def)
  from empty_daq_lists [OF w, of sample_float_of sample_service "[]"] q show ?thesis
    by (simp split: prod.splits sum.splits)
qed

text \<open>
  C3. With \<open>t0 = t1\<close> the call never returns a report: it ends in an error.
  If the loop and the query for the whole window went through, that error is
  the \<open>ZeroDivisionError\<close> of the division in line 109; no quotient is
  returned.
\<close>

theorem zero_length_window_fails:
  assumes "t1 = t0"
  shows "(\<exists>err. snd (get_livetime_interval float_of srv reqs t0 t1 starts ends) = Inl err)
    \<and> (\<forall>reqs1 acc reqs2 query.
          loop float_of srv t0 t1 (zip starts ends) (reqs, 0, 0, 0) = (reqs1, Inr acc) \<longrightarrow>
          query_pot_interval float_of srv reqs1 t0 t1 = (reqs2, Inr query) \<longrightarrow>
          get_livetime_interval float_of srv reqs t0 t1 starts ends =
            (reqs2, Inl ZeroDivisionError))"
  using assms
  by (auto simp add: get_livetime_interval_def total_seconds_def split: prod.split sum.split)

theorem zero_length_window_fails_witness:
  "get_livetime_interval sample_float_of sample_service [] 5000000 5000000
     [1000000] [9000000] =
   ([query_url 5000000 5000000, query_url 5000000 5000000], Inl ZeroDivisionError)"
proof -
  have l: "loop sample_float_of sample_service 5000000 5000000 (zip [1000000] [9000000])
      ([], 0, 0, 0) = ([query_url 5000000 5000000], Inr (0, 2, 13 / 2))"
    by (simp add: loop_body.simps clipped_def query_pot_interval_def Let_def
        sample_service_def sample_float_of_def data_fields_def)
  have q: "query_pot_interval sample_float_of sample_service [query_url 5000000 5000000]
      5000000 5000000 = ([query_url 5000000 5000000, query_url 5000000 5000000], Inr (2, 13 / 2))"
    by (simp add: query_pot_interval_def Let_def sample_service_def sample_float_of_def
        data_fields_def)
  from zero_length_window_fails [of 5000000 5000000 sample_float_of sample_service "[]"
      "[1000000]" "[9000000]"] l q
  show ?thesis
    by blast
qed

subsection \<open>Unequal lengths\<close>

lemma zip_take_min:
  "zip (take (min (length xs) (length ys)) xs) (take (min (length xs) (length ys)) ys) = zip xs ys"
  by (induction xs ys rule: list_induct2') auto

text \<open>
  C9. When \<open>starts\<close> and \<open>ends\<close> differ in length, the call behaves exactly as
  on the first \<open>min (len starts) (len ends)\<close> entries of each: the surplus of the
  longer list is ignored and no error about the mismatch arises.
\<close>

theorem unequal_lengths_truncated:
  "get_livetime_interval float_of srv reqs t0 t1 starts ends =
   get_livetime_interval float_of srv reqs t0 t1
     (take (min (length starts) (length ends)) starts)
     (take (min (length starts) (length ends)) ends)"
  by (simp add: get_livetime_interval_def zip_take_min)

subsection \<open>Reversed DAQ intervals\<close>

text \<open>
  C10. There is an input with \<open>t0 < t1\<close> and one DAQ interval whose end lies
  before its start and which still passes the intersection test, for which the
  call returns a negative \<open>livetime\<close> and a negative \<open>livetime_fraction\<close>.
\<close>

theorem reversed_interval_negative_livetime:
  "\<exists>float_of srv reqs t0 t1 s e r.
     t0 < t1 \<and> e < s \<and> s \<le> t1 \<and> t0 \<le> e \<and>
     snd (get_livetime_interval float_of srv reqs t0 t1 [s] [e]) = Inr r \<and>
     livetime r < 0 \<and> livetime_fraction r < 0"
proof -
  have "snd (get_livetime_interval sample_float_of sample_service [] 0 10000000
          [8000000] [2000000]) =
      Inr \<lparr> livetime = - 6, livetime_fraction = - (3 / 5), delivered_spills = 2,
            collected_spills = 2, delivered_pot = 13 / 2, collected_pot = 13 / 2 \<rparr>"
    by (simp add: get_livetime_interval_def loop_body.simps clipped_def query_pot_interval_def
        Let_def sample_service_def sample_float_of_def data_fields_def total_seconds_def)
  then have "(0 :: int) < 10000000 \<and> (2000000 :: int) < 8000000 \<and> (8000000 :: int) \<le> 10000000 \<and>
     (0 :: int) \<le> 2000000 \<and>
     snd (get_livetime_interval sample_float_of sample_service [] 0 10000000
          [8000000] [2000000]) =
      Inr \<lparr> livetime = - 6, livetime_fraction = - (3 / 5), delivered_spills = 2,
            collected_spills = 2, delivered_pot = 13 / 2, collected_pot = 13 / 2 \<rparr> \<and>
     livetime \<lparr> livetime = - 6, livetime_fraction = - (3 / 5), delivered_spills = 2,
            collected_spills = 2, delivered_pot = 13 / 2, collected_pot = 13 / 2 \<rparr> < 0 \<and>
     livetime_fraction \<lparr> livetime = - 6, livetime_fraction = - (3 / 5), delivered_spills = 2,
            collected_spills = 2, delivered_pot = 13 / 2, collected_pot = 13 / 2 \<rparr> < 0"
    by simp
  then show ?thesis
    by blast
qed

subsection \<open>A failed request ends the call\<close>

lemma aborts_refl: "aborts_at_failure srv reqs reqs res"
  by (auto simp add: aborts_at_failure_def)

lemma aborts_query:
  assumes "query_pot_interval float_of srv reqs t0 t1 = (reqs', res)"
  shows "aborts_at_failure srv reqs reqs' res"
proof -
  let ?u = "query_url t0 t1"
  from assms have r: "reqs' = reqs @ [?u]"
    by (auto simp add: query_pot_interval_def Let_def split: option.splits if_splits)
  from assms have e: "status_code (srv reqs ?u) \<noteq> 200 \<Longrightarrow>
      res = Inl (RuntimeError (status_code (srv reqs ?u)))"
    by (auto simp add: query_pot_interval_def Let_def split: option.splits if_splits)
  have "res = Inl (RuntimeError (status_code (srv (take k reqs') (reqs' ! k)))) \<and>
      Suc k = length reqs'"
    if h: "length reqs \<le> k \<and> k < length reqs' \<and>
      status_code (srv (take k reqs') (reqs' ! k)) \<noteq> 200" for k
  proof -
    from h r have k: "k = length reqs"
      by simp
    with r have "take k reqs' = reqs" "reqs' ! k = ?u"
      by simp_all
    with h e k r show ?thesis
      by simp
  qed
  with r show ?thesis
    unfolding aborts_at_failure_def by blast
qed

lemma aborts_trans:
  assumes a: "aborts_at_failure srv reqs reqs1 (Inr x :: error + 'a)"
    and b: "aborts_at_failure srv reqs1 reqs2 (res :: error + 'b)"
  shows "aborts_at_failure srv reqs reqs2 res"
proof -
  from a obtain e1 where e1: "reqs1 = reqs @ e1"
    by (auto simp add: aborts_at_failure_def)
  from b obtain e2 where e2: "reqs2 = reqs1 @ e2"
    by (auto simp add: aborts_at_failure_def)
  have early: "\<not> (length reqs \<le> k \<and> k < length reqs1 \<and>
      status_code (srv (take k reqs2) (reqs2 ! k)) \<noteq> 200)" for k
  proof
    assume h: "length reqs \<le> k \<and> k < length reqs1 \<and>
      status_code (srv (take k reqs2) (reqs2 ! k)) \<noteq> 200"
    then have "take k reqs2 = take k reqs1" "reqs2 ! k = reqs1 ! k"
      by (simp_all add: e2 nth_append)
    with h a show False
      by (auto simp add: aborts_at_failure_def)
  qed
  have "res = Inl (RuntimeError (status_code (srv (take k reqs2) (reqs2 ! k)))) \<and>
      Suc k = length reqs2"
    if h: "length reqs \<le> k \<and> k < length reqs2 \<and>
      status_code (srv (take k reqs2) (reqs2 ! k)) \<noteq> 200" for k
  proof -
    from h early [of k] have "length reqs1 \<le> k"
      by auto
    with h b show ?thesis
      by (auto simp add: aborts_at_failure_def)
  qed
  moreover have "\<exists>ext. reqs2 = reqs @ ext"
    by (simp add: e1 e2)
  ultimately show ?thesis
    unfolding aborts_at_failure_def by blast
qed

lemma aborts_loop_body:
  assumes "loop_body float_of srv t0 t1 se (reqs, acc) = (reqs', res)"
  shows "aborts_at_failure srv reqs reqs' res"
proof -
  obtain s e where se: "se = (s, e)" by (cases se)
  obtain overlap c_spills c_pot where acc: "acc = (overlap, c_spills, c_pot)" by (cases acc)
  show ?thesis
  proof (cases "s > t1 \<or> e < t0")
    case True
    with assms show ?thesis
      by (auto simp add: se acc loop_body.simps aborts_refl)
  next
    case False
    obtain rq resq where q: "query_pot_interval float_of srv reqs (max t0 s) (min t1 e) = (rq, resq)"
      by (cases "query_pot_interval float_of srv reqs (max t0 s) (min t1 e)")
    from aborts_query [OF q] have aq: "aborts_at_failure srv reqs rq resq" .
    show ?thesis
    proof (cases resq)
      case (Inl err)
      with assms False q have "reqs' = rq" "res = Inl err"
        by (simp_all add: se acc loop_body.simps clipped_def)
      with aq Inl show ?thesis
        unfolding aborts_at_failure_def by auto
    next
      case (Inr v)
      with assms False q have "reqs' = rq" "\<exists>y. res = Inr y"
        by (auto simp add: se acc loop_body.simps clipped_def)
      with aq Inr show ?thesis
        unfolding aborts_at_failure_def by auto
    qed
  qed
qed

lemma aborts_loop:
  "loop float_of srv t0 t1 xs (reqs, acc) = (reqs', res) \<Longrightarrow>
   aborts_at_failure srv reqs reqs' res"
proof (induction xs arbitrary: reqs acc)
  case Nil
  then show ?case by (auto simp add: aborts_refl)
next
  case (Cons se rest)
  obtain rb resb where b: "loop_body float_of srv t0 t1 se (reqs, acc) = (rb, resb)"
    by (cases "loop_body float_of srv t0 t1 se (reqs, acc)")
  from aborts_loop_body [OF b] have ab: "aborts_at_failure srv reqs rb resb" .
  show ?case
  proof (cases resb)
    case (Inl err)
    with Cons.prems b have "reqs' = rb" "res = Inl err"
      by simp_all
    with ab Inl show ?thesis
      by simp
  next
    case (Inr acc')
    with Cons.prems b have "loop float_of srv t0 t1 rest (rb, acc') = (reqs', res)"
      by simp
    from Cons.IH [OF this] have "aborts_at_failure srv rb reqs' res" .
    from aborts_trans [OF ab [unfolded Inr] this] show ?thesis .
  qed
qed

lemma aborts_get_livetime_interval:
  assumes "get_livetime_interval float_of srv reqs t0 t1 starts ends = (reqs', res)"
  shows "aborts_at_failure srv reqs reqs' res"
proof -
  obtain r1 res1 where l: "loop float_of srv t0 t1 (zip starts ends) (reqs, 0, 0, 0) = (r1, res1)"
    by (cases "loop float_of srv t0 t1 (zip starts ends) (reqs, 0, 0, 0)")
  from aborts_loop [OF l] have al: "aborts_at_failure srv reqs r1 res1" .
  show ?thesis
  proof (cases res1)
    case (Inl err)
    with assms l have "reqs' = r1" "res = Inl err"
      by (simp_all add: get_livetime_interval_def)
    with al Inl show ?thesis
      unfolding aborts_at_failure_def by auto
  next
    case (Inr acc)
    obtain r2 res2 where q: "query_pot_interval float_of srv r1 t0 t1 = (r2, res2)"
      by (cases "query_pot_interval float_of srv r1 t0 t1")
    from aborts_query [OF q] have aq: "aborts_at_failure srv r1 r2 res2" .
    have r: "reqs' = r2"
      using assms l q Inr
      by (cases res2; cases acc) (auto simp add: get_livetime_interval_def Let_def split: if_splits)
    have "aborts_at_failure srv r1 r2 res"
    proof (cases res2)
      case (Inl err)
      with assms l q Inr have "res = Inl err"
        by (cases acc) (simp add: get_livetime_interval_def)
      with aq Inl show ?thesis
        unfolding aborts_at_failure_def by auto
    next
      case (Inr v)
      with q have "r2 = r1 @ [query_url t0 t1]" "status_code (srv r1 (query_url t0 t1)) = 200"
        by (auto simp add: query_pot_interval_def Let_def split: if_splits option.splits)
      then show ?thesis
        by (auto simp add: aborts_at_failure_def less_Suc_eq_le)
    qed
    from aborts_trans [OF al [unfolded Inr] this] r show ?thesis
      by simp
  qed
qed

text \<open>
  C4. If the service answers a query with a status other than 200, then
  \<open>query_pot_interval\<close> raises the \<open>RuntimeError\<close> that carries this status,
  returns no value, and has issued that one request only. In a call of
  \<open>get_livetime_interval\<close>, if any request it issued (position \<open>k\<close> of the
  final log) was answered with a status other than 200, the call ends with the
  \<open>RuntimeError\<close> of that status instead of a report, and that request is the
  last one issued.
\<close>

theorem non_200_aborts:
  "(status_code (srv reqs (query_url t0 t1)) \<noteq> 200 \<longrightarrow>
      query_pot_interval float_of srv reqs t0 t1 =
        (reqs @ [query_url t0 t1],
         Inl (RuntimeError (status_code (srv reqs (query_url t0 t1))))))
   \<and> (get_livetime_interval float_of srv reqs t0 t1 starts ends = (reqs', res) \<and>
        length reqs \<le> k \<and> k < length reqs' \<and>
        status_code (srv (take k reqs') (reqs' ! k)) \<noteq> 200 \<longrightarrow>
        res = Inl (RuntimeError (status_code (srv (take k reqs') (reqs' ! k)))) \<and>
        Suc k = length reqs')"
proof -
  have one: "status_code (srv reqs (query_url t0 t1)) \<noteq> 200 \<Longrightarrow>
      query_pot_interval float_of srv reqs t0 t1 =
        (reqs @ [query_url t0 t1],
         Inl (RuntimeError (status_code (srv reqs (query_url t0 t1)))))"
    by (simp add: query_pot_interval_def Let_def)
  have all: "get_livetime_interval float_of srv reqs t0 t1 starts ends = (reqs', res) \<Longrightarrow>
      aborts_at_failure srv reqs reqs' res"
    by (rule aborts_get_livetime_interval)
  show ?thesis
    using one all unfolding aborts_at_failure_def by blast
qed

theorem non_200_aborts_witness:
  "query_pot_interval sample_float_of flaky_service [query_url 1 2] 3 4 =
     ([query_url 1 2, query_url 3 4], Inl (RuntimeError 500))
   \<and> get_livetime_interval sample_float_of flaky_service [] 0 10 [1, 3, 5] [2, 4, 6] =
     ([query_url 1 2, query_url 3 4], Inl (RuntimeError 500))"
proof -
  let ?g = "get_livetime_interval sample_float_of flaky_service [] 0 10 [1, 3, 5] [2, 4, 6]"
  have lg: "fst ?g = [query_url 1 2, query_url 3 4]"
    by (simp add: get_livetime_interval_def loop_body.simps clipped_def query_pot_interval_def
        Let_def flaky_service_def data_fields_def)
  have g: "?g = (fst ?g, snd ?g)"
    by simp
  have bad: "status_code (flaky_service (take 1 (fst ?g)) (fst ?g ! 1)) \<noteq> 200"
    by (simp add: lg flaky_service_def)
  have bad1: "status_code (flaky_service [query_url 1 2] (query_url 3 4)) \<noteq> 200"
    by (simp add: flaky_service_def)
  have code: "status_code (flaky_service [query_url 1 2] (query_url 3 4)) = 500"
    by (simp add: flaky_service_def)
  have k: "length ([] :: request_log) \<le> 1" "1 < length (fst ?g)"
    by (simp_all add: lg)
  from non_200_aborts [where srv = flaky_service and reqs = "[query_url 1 2]" and ?t0.0 = 3
      and ?t1.0 = 4 and float_of = sample_float_of] bad1 code
  have first: "query_pot_interval sample_float_of flaky_service [query_url 1 2] 3 4 =
     ([query_url 1 2, query_url 3 4], Inl (RuntimeError 500))"
    by simp
  from non_200_aborts [where srv = flaky_service and reqs = "[]" and ?t0.0 = 0 and ?t1.0 = 10
      and float_of = sample_float_of and starts = "[1, 3, 5]" and ends = "[2, 4, 6]"
      and reqs' = "fst ?g" and res = "snd ?g" and k = 1] g bad k
  have "snd ?g = Inl (RuntimeError (status_code (flaky_service (take 1 (fst ?g)) (fst ?g ! 1))))"
    by blast
  then have "snd ?g = Inl (RuntimeError 500)"
    by (simp add: lg flaky_service_def)
  with lg first show ?thesis
    by (simp add: prod_eq_iff)
qed

subsection \<open>The order of the DAQ intervals\<close>

lemma query_snd_stateless:
  assumes "\<forall>h u. srv h u = srv [] u"
  shows "snd (query_pot_interval float_of srv reqs a b) =
         snd (query_pot_interval float_of srv [] a b)"
  using assms [rule_format, of reqs "query_url a b"]
  by (simp add: query_pot_interval_def Let_def split: option.split)

lemma loop_body_snd_stateless:
  assumes st: "\<forall>h u. srv h u = srv [] u"
  shows "snd (loop_body float_of srv t0 t1 se (reqs, ov, sp, pot)) =
         (case contribution float_of srv t0 t1 se of
            Inl err \<Rightarrow> Inl err
          | Inr (a, b, c) \<Rightarrow> Inr (ov + a, sp + b, pot + c))"
proof -
  obtain s e where se: "se = (s, e)" by (cases se)
  show ?thesis
  proof (cases "s > t1 \<or> e < t0")
    case True
    then show ?thesis
      by (simp add: se contribution_def loop_body.simps)
  next
    case False
    let ?q = "\<lambda>h. query_pot_interval float_of srv h (max t0 s) (min t1 e)"
    have q: "snd (?q reqs) = snd (?q [])"
      by (rule query_snd_stateless [OF st])
    have l: "snd (loop_body float_of srv t0 t1 (s, e) (h, ov', sp', pot')) =
        (case snd (?q h) of Inl err \<Rightarrow> Inl err
         | Inr v \<Rightarrow> Inr (ov' + (min t1 e - max t0 s), sp' + fst v, pot' + snd v))"
      for h ov' sp' pot'
      using False by (rule loop_body_query_snd)
    show ?thesis
      unfolding se contribution_def l q
      by (simp split: sum.split)
  qed
qed

lemma loop_snd_stateless:
  assumes st: "\<forall>h u. srv h u = srv [] u"
  shows "(snd (loop float_of srv t0 t1 xs (reqs, ov, sp, pot)) = Inr acc') \<longleftrightarrow>
         (\<forall>x \<in> set xs. \<not> isl (contribution float_of srv t0 t1 x)) \<and>
         acc' = (ov + (\<Sum>x\<leftarrow>xs. fst (projr (contribution float_of srv t0 t1 x))),
                 sp + (\<Sum>x\<leftarrow>xs. fst (snd (projr (contribution float_of srv t0 t1 x)))),
                 pot + (\<Sum>x\<leftarrow>xs. snd (snd (projr (contribution float_of srv t0 t1 x)))))"
proof (induction xs arbitrary: reqs ov sp pot)
  case Nil
  show ?case by auto
next
  case (Cons x xs)
  obtain rb resb where b: "loop_body float_of srv t0 t1 x (reqs, ov, sp, pot) = (rb, resb)"
    by (cases "loop_body float_of srv t0 t1 x (reqs, ov, sp, pot)")
  from loop_body_snd_stateless [OF st, of float_of t0 t1 x reqs ov sp pot] b
  have resb: "resb = (case contribution float_of srv t0 t1 x of
            Inl err \<Rightarrow> Inl err
          | Inr (a, b, c) \<Rightarrow> Inr (ov + a, sp + b, pot + c))"
    by simp
  show ?case
  proof (cases "contribution float_of srv t0 t1 x")
    case (Inl err)
    with resb b show ?thesis by simp
  next
    case (Inr c)
    obtain a1 b1 c1 where c: "c = (a1, b1, c1)" by (cases c)
    from resb Inr c have "resb = Inr (ov + a1, sp + b1, pot + c1)" by simp
    with b have "snd (loop float_of srv t0 t1 (x # xs) (reqs, ov, sp, pot)) =
        snd (loop float_of srv t0 t1 xs (rb, ov + a1, sp + b1, pot + c1))"
      by simp
    with Cons.IH [of rb "ov + a1" "sp + b1" "pot + c1"] Inr c show ?thesis
      by (simp add: add.assoc)
  qed
qed

lemma sum_list_mset_cong:
  fixes g :: "'a \<Rightarrow> 'b::comm_monoid_add"
  assumes "mset xs = mset ys"
  shows "(\<Sum>x\<leftarrow>xs. g x) = (\<Sum>x\<leftarrow>ys. g x)"
proof -
  have "sum_mset (mset (map g xs)) = sum_mset (mset (map g ys))"
    using assms by simp
  then show ?thesis
    by (simp only: sum_mset_sum_list)
qed

lemma loop_snd_permuted:
  assumes st: "\<forall>h u. srv h u = srv [] u"
    and p: "mset xs = mset ys"
  shows "(snd (loop float_of srv t0 t1 xs (reqs, acc)) = Inr acc') \<longleftrightarrow>
         (snd (loop float_of srv t0 t1 ys (reqs', acc)) = Inr acc')"
proof -
  obtain ov sp pot where acc: "acc = (ov, sp, pot)" by (cases acc)
  from p have "set xs = set ys" by (rule mset_eq_setD)
  then show ?thesis
    unfolding acc loop_snd_stateless [OF st]
    by (simp add: sum_list_mset_cong [OF p])
qed

lemma get_livetime_interval_snd_stateless:
  assumes st: "\<forall>h u. srv h u = srv [] u"
  shows "snd (get_livetime_interval float_of srv reqs t0 t1 starts ends) = Inr r \<longleftrightarrow>
    (\<exists>ov sp pot q.
       snd (loop float_of srv t0 t1 (zip starts ends) (reqs, 0, 0, 0)) = Inr (ov, sp, pot) \<and>
       snd (query_pot_interval float_of srv [] t0 t1) = Inr q \<and>
       total_seconds (t1 - t0) \<noteq> 0 \<and>
       r = \<lparr> livetime = total_seconds ov,
             livetime_fraction = total_seconds ov / total_seconds (t1 - t0),
             delivered_spills = fst q, collected_spills = sp,
             delivered_pot = snd q, collected_pot = pot \<rparr>)"
proof -
  obtain r1 res1 where l: "loop float_of srv t0 t1 (zip starts ends) (reqs, 0, 0, 0) = (r1, res1)"
    by (cases "loop float_of srv t0 t1 (zip starts ends) (reqs, 0, 0, 0)")
  obtain r2 res2 where q: "query_pot_interval float_of srv r1 t0 t1 = (r2, res2)"
    by (cases "query_pot_interval float_of srv r1 t0 t1")
  from query_snd_stateless [OF st, of float_of r1 t0 t1] q
  have q0: "snd (query_pot_interval float_of srv [] t0 t1) = res2"
    by simp
  show ?thesis
    unfolding q0
    by (cases res1; cases res2)
      (auto simp add: get_livetime_interval_def l q Let_def split: if_splits)
qed

text \<open>
  C8. Let the service answer a request by its URL alone, whatever was asked
  before (the responses are fixed per clipped window). If the pairs
  \<open>(starts'[i], ends'[i])\<close> are a permutation of the pairs
  \<open>(starts[i], ends[i])\<close>, then the call on one list returns the report \<open>r\<close>
  exactly when the call on the other returns \<open>r\<close>: both return the same
  report, or neither returns one. The sums are sums of real numbers here, so
  the reports are equal and not only close.
\<close>

theorem order_of_intervals_irrelevant:
  assumes "\<forall>h u. srv h u = srv [] u"
    and "mset (zip starts' ends') = mset (zip starts ends)"
  shows "snd (get_livetime_interval float_of srv reqs' t0 t1 starts' ends') = Inr r \<longleftrightarrow>
         snd (get_livetime_interval float_of srv reqs t0 t1 starts ends) = Inr r"
  unfolding get_livetime_interval_snd_stateless [OF assms(1)]
    loop_snd_permuted [OF assms(1) assms(2), of float_of t0 t1 reqs' "(0, 0, 0)" _ reqs]
  by (rule refl)

theorem order_of_intervals_irrelevant_witness:
  "snd (get_livetime_interval sample_float_of sample_service [] 0 10000000
          [5000000, 0] [10000000, 3000000]) =
   Inr \<lparr> livetime = 8, livetime_fraction = 4 / 5, delivered_spills = 2, collected_spills = 4,
         delivered_pot = 13 / 2, collected_pot = 13 \<rparr>"
proof -
  have st: "\<forall>h u. sample_service h u = sample_service [] u"
    by (simp add: sample_service_def)
  have p: "mset (zip [5000000, 0 :: int] [10000000, 3000000 :: int]) =
      mset (zip [0, 5000000] [3000000, 10000000])"
    by simp
  from order_of_intervals_irrelevant [OF st p, of sample_float_of "[]" 0 10000000 _ "[]"]
    sample_run
  show ?thesis
    by simp
qed

end
